theory Spec2Isabelle
  imports Main "HOL-Library.AList" "HOL-Library.Char_ord" "HOL-Library.List_Lexorder"
begin

text \<open>
  A shallow embedding of \<^verbatim>\<open>kazel/generator.go\<close>: the tag extractor
  (\<^verbatim>\<open>extractTags\<close>), the tree walker (\<^verbatim>\<open>findGeneratorTags\<close>), the
  flattener (\<^verbatim>\<open>flattened\<close>) and the driver (\<^verbatim>\<open>walkGenerated\<close>).
  Go byte slices and strings are \<^typ>\<open>string\<close> (lists of 8-bit characters), Go maps are
  association lists with distinct keys whose list order stands for the (unspecified)
  iteration order of \<^verbatim>\<open>range\<close>, and an \<^verbatim>\<open>error\<close> result is an
  \<open>error option\<close> (\<open>None\<close> is \<^verbatim>\<open>nil\<close>).
\<close>

section \<open>Byte strings and character classes\<close>

text \<open>
  The character classes of \<^verbatim>\<open>genTagRe\<close>. In Go's regexp syntax \<^verbatim>\<open>\s\<close> is
  \<^verbatim>\<open>[\t\n\f\r ]\<close>, \<^verbatim>\<open>\S\<close> is its complement and \<^verbatim>\<open>[^\s=]\<close>
  excludes the white space and \<^verbatim>\<open>=\<close>. The classes are read byte by byte: every
  byte of a multi-byte UTF-8 sequence (and every invalid byte) is at least 0x80, so it
  belongs to \<^verbatim>\<open>\S\<close> and \<^verbatim>\<open>[^\s=]\<close> and to no literal of the pattern, and
  the byte-wise match coincides with the rune-wise one.
\<close>

type_synonym cclass = "char \<Rightarrow> bool"

definition NL :: char where
  "NL = CHR 0x0A"

definition perl_space :: cclass where
  "perl_space c = (c = CHR 0x09 \<or> c = CHR 0x0A \<or> c = CHR 0x0C \<or> c = CHR 0x0D \<or> c = CHR 0x20)"

definition non_space :: cclass where
  "non_space c = (\<not> perl_space c)"

definition tag_char :: cclass where
  "tag_char c = (\<not> (perl_space c \<or> c = CHR ''=''))"

section \<open>Regular expressions with leftmost-first matching\<close>

text \<open>
  The fragment of the regexp syntax that \<^verbatim>\<open>genTagRe\<close> uses: literals, a greedy
  star and plus over a character class, capturing groups and concatenation (a
  non-capturing group is a nested concatenation).

  Go's \<^verbatim>\<open>regexp\<close> returns the leftmost match and, among the matches starting
  there, the one a backtracking search would find first. \<open>matches r s\<close> lists every way
  \<open>r\<close> matches a prefix of \<open>s\<close> in the order a backtracking search tries them (a greedy
  repetition tries the longest run first): each entry holds the captured groups and
  the input left over. \<open>search\<close> takes the first entry at the leftmost position that
  has one, and returns the sub-matches \<^verbatim>\<open>m[0]\<close>, \<^verbatim>\<open>m[1]\<close>, ... with the
  input after the match.
\<close>

datatype re = Lit string | Star cclass | Plus cclass | Group re | Cat re re

fun star_run :: "cclass \<Rightarrow> string \<Rightarrow> string list" where
  "star_run p [] = [[]]"
| "star_run p (c # cs) = (if p c then star_run p cs @ [c # cs] else [c # cs])"

fun matches :: "re \<Rightarrow> string \<Rightarrow> (string list \<times> string) list" where
  "matches (Lit l) s = (if take (length l) s = l then [([], drop (length l) s)] else [])"
| "matches (Star p) s = map (Pair []) (star_run p s)"
| "matches (Plus p) s =
     (case s of [] \<Rightarrow> [] | c # cs \<Rightarrow> if p c then map (Pair []) (star_run p cs) else [])"
| "matches (Group r) s =
     map (\<lambda>(caps, rest). (take (length s - length rest) s # caps, rest)) (matches r s)"
| "matches (Cat r1 r2) s =
     concat (map (\<lambda>(c1, s1). map (\<lambda>(c2, s2). (c1 @ c2, s2)) (matches r2 s1)) (matches r1 s))"

fun search :: "re \<Rightarrow> string \<Rightarrow> (string list \<times> string) option" where
  "search r [] = (case matches r [] of [] \<Rightarrow> None | (caps, rest) # _ \<Rightarrow> Some ([] # caps, rest))"
| "search r (c # cs) =
     (case matches r (c # cs) of
        [] \<Rightarrow> search r cs
      | (caps, rest) # _ \<Rightarrow> Some (take (length (c # cs) - length rest) (c # cs) # caps, rest))"


text \<open>
  \<^verbatim>\<open>genTagRe = regexp.MustCompile(`//\s*\+k8s:([^\s=]+)(?:=(\S+))\s*\n`)\<close>
\<close>

definition genTagRe :: re where
  "genTagRe =
     Cat (Lit ''//'') (Cat (Star perl_space) (Cat (Lit ''+k8s:'') (Cat (Group (Plus tag_char))
       (Cat (Cat (Lit ''='') (Group (Plus non_space))) (Cat (Star perl_space) (Lit [NL]))))))"




subsection \<open>Matches consume input\<close>

lemma star_run_suffix:
  "x \<in> set (star_run p s) \<Longrightarrow> \<exists>pre. s = pre @ x"
proof (induction s)
  case Nil
  then show ?case by simp
next
  case (Cons c cs)
  show ?case
  proof (cases "x = c # cs")
    case True
    then show ?thesis by simp
  next
    case False
    with Cons.prems have "x \<in> set (star_run p cs)"
      by (auto split: if_splits)
    then obtain pre where "cs = pre @ x"
      using Cons.IH by blast
    then have "c # cs = (c # pre) @ x" by simp
    then show ?thesis by blast
  qed
qed

lemma matches_suffix:
  "(caps, rest) \<in> set (matches r s) \<Longrightarrow> \<exists>pre. s = pre @ rest"
proof (induction r arbitrary: s caps rest)
  case (Lit l)
  then have "rest = drop (length l) s"
    by (auto split: if_splits)
  then have "s = take (length l) s @ rest" by simp
  then show ?case by blast
next
  case (Star p)
  then show ?case by (auto dest: star_run_suffix)
next
  case (Plus p)
  then obtain c cs where s: "s = c # cs" and "rest \<in> set (star_run p cs)"
    by (cases s) (auto split: if_splits)
  then obtain pre where "cs = pre @ rest"
    using star_run_suffix by blast
  with s have "s = (c # pre) @ rest" by simp
  then show ?case by blast
next
  case (Group r)
  then show ?case by auto
next
  case (Cat r1 r2)
  from Cat.prems obtain c1 s1 c2 where
    m1: "(c1, s1) \<in> set (matches r1 s)" and m2: "(c2, rest) \<in> set (matches r2 s1)"
    by auto
  from Cat.IH(1)[OF m1] obtain p1 where "s = p1 @ s1" by blast
  moreover from Cat.IH(2)[OF m2] obtain p2 where "s1 = p2 @ rest" by blast
  ultimately have "s = (p1 @ p2) @ rest" by simp
  then show ?case by blast
qed

lemma matches_Cat_Lit:
  "matches (Cat (Lit l) r) s =
     (if take (length l) s = l then matches r (drop (length l) s) else [])"
  by simp

lemma matches_Cat_Lit_mem:
  assumes "(caps, rest) \<in> set (matches (Cat (Lit l) r) s)"
  shows "take (length l) s = l \<and> (caps, rest) \<in> set (matches r (drop (length l) s))"
proof (cases "take (length l) s = l")
  case True
  with assms show ?thesis by (simp only: matches_Cat_Lit if_True) simp
next
  case False
  with assms show ?thesis by (simp only: matches_Cat_Lit if_False) simp
qed

lemma matches_Cat_Lit_shorter:
  assumes "(caps, rest) \<in> set (matches (Cat (Lit l) r) s)"
  shows "length rest + length l \<le> length s"
proof -
  from matches_Cat_Lit_mem[OF assms]
  have pre: "take (length l) s = l" and m: "(caps, rest) \<in> set (matches r (drop (length l) s))"
    by simp_all
  from matches_suffix[OF m] obtain p where "drop (length l) s = p @ rest" by blast
  then have "length (drop (length l) s) = length p + length rest"
    by simp
  then have "length rest \<le> length s - length l"
    by simp
  moreover from pre have "length (take (length l) s) = length l"
    by simp
  then have "length l \<le> length s"
    by simp
  ultimately show ?thesis by simp
qed

lemma matches_genTagRe_shorter:
  assumes "(caps, rest) \<in> set (matches genTagRe s)"
  shows "length rest < length s"
  using assms unfolding genTagRe_def by (auto dest!: matches_Cat_Lit_shorter simp del: matches.simps)

lemma search_Some:
  "search r s = Some (m, rest) \<Longrightarrow>
     \<exists>pre mid caps. s = pre @ mid \<and> matches r mid \<noteq> [] \<and> hd (matches r mid) = (caps, rest)
        \<and> m = take (length mid - length rest) mid # caps"
proof (induction s)
  case Nil
  then show ?case
    by (cases "matches r []") (auto split: prod.splits)
next
  case (Cons c cs)
  show ?case
  proof (cases "matches r (c # cs)")
    case Nil
    with Cons.prems have "search r cs = Some (m, rest)" by simp
    from Cons.IH[OF this] obtain pre mid caps where
      "cs = pre @ mid" "matches r mid \<noteq> []" "hd (matches r mid) = (caps, rest)"
      "m = take (length mid - length rest) mid # caps" by blast
    then have "c # cs = (c # pre) @ mid" by simp
    then show ?thesis
      using \<open>matches r mid \<noteq> []\<close> \<open>hd (matches r mid) = (caps, rest)\<close>
        \<open>m = take (length mid - length rest) mid # caps\<close> by blast
  next
    case (Cons x xs)
    obtain caps rest' where x: "x = (caps, rest')" by (cases x)
    with Cons Cons.prems have "rest' = rest" "m = take (length (c # cs) - length rest) (c # cs) # caps"
      by auto
    then have "c # cs = [] @ (c # cs) \<and> matches r (c # cs) \<noteq> [] \<and> hd (matches r (c # cs)) = (caps, rest)
        \<and> m = take (length (c # cs) - length rest) (c # cs) # caps"
      using Cons x by simp
    then show ?thesis by blast
  qed
qed

lemma search_genTagRe_shorter:
  "search genTagRe b = Some (m, rest) \<Longrightarrow> length rest < length b"
proof -
  assume "search genTagRe b = Some (m, rest)"
  from search_Some[OF this] obtain pre mid caps where
    b: "b = pre @ mid" and ne: "matches genTagRe mid \<noteq> []"
    and hd: "hd (matches genTagRe mid) = (caps, rest)" by blast
  from ne hd have "(caps, rest) \<in> set (matches genTagRe mid)"
    by (metis hd_in_set)
  then have "length rest < length mid" by (rule matches_genTagRe_shorter)
  with b show ?thesis by simp
qed

text \<open>
  \<^verbatim>\<open>genTagRe.FindAllSubmatch(b, -1)\<close>: the successive non-overlapping matches, each
  search starting where the previous match ended. A match of \<open>genTagRe\<close> is never empty
  (it starts with \<^verbatim>\<open>//\<close>), which is the termination argument.
\<close>

function genTagRe_FindAllSubmatch :: "string \<Rightarrow> string list list" where
  "genTagRe_FindAllSubmatch b =
     (case search genTagRe b of
        None \<Rightarrow> []
      | Some (m, rest) \<Rightarrow> m # genTagRe_FindAllSubmatch rest)"
  by pat_completeness auto
termination
  by (relation "measure length") (auto dest: search_genTagRe_shorter)

declare genTagRe_FindAllSubmatch.simps [simp del]

section \<open>extractTags\<close>

text \<open>
  \<^verbatim>\<open>strings.Split(s, sep)\<close> for a one-byte separator: the pieces between the
  separators, empty pieces included, so the result has one more element than \<open>s\<close> has
  separators. \<^verbatim>\<open>strings.HasSuffix\<close> is transcribed from the standard library.
\<close>

fun strings_Split :: "string \<Rightarrow> char \<Rightarrow> string list" where
  "strings_Split [] sep = [[]]"
| "strings_Split (c # cs) sep =
     (if c = sep then [] # strings_Split cs sep
      else (case strings_Split cs sep of
              [] \<Rightarrow> [[c]]
            | x # xs \<Rightarrow> (c # x) # xs))"


definition HasSuffix :: "string \<Rightarrow> string \<Rightarrow> bool" where
  "HasSuffix s suffix =
     (length s \<ge> length suffix \<and> drop (length s - length suffix) s = suffix)"

text \<open>
  A Go map is an association list with distinct keys: \<open>map_of m k\<close> is the lookup
  \<^verbatim>\<open>m[k]\<close> with its presence flag, \<open>AList.update k v m\<close> the assignment
  \<^verbatim>\<open>m[k] = v\<close>. \<open>slice_at\<close> and \<open>map_at\<close> read a key whose absence yields the
  zero value (a nil slice, a nil map).
\<close>

type_synonym ('k, 'v) gomap = "('k \<times> 'v) list"

definition slice_at :: "(string, 'a list) gomap \<Rightarrow> string \<Rightarrow> 'a list" where
  "slice_at m k = (case map_of m k of None \<Rightarrow> [] | Some vs \<Rightarrow> vs)"

fun extractTags_loop ::
  "string list list \<Rightarrow> (string, bool) gomap \<Rightarrow> (string, string list) gomap
     \<Rightarrow> (string, string list) gomap" where
  "extractTags_loop [] requestedTags tags = tags"
| "extractTags_loop (m # ms) requestedTags tags =
     (if length m \<ge> 3 then
        (let tag = m ! 1; vals = m ! 2 in
         if map_of requestedTags tag = None then extractTags_loop ms requestedTags tags
         else extractTags_loop ms requestedTags
                (AList.update tag (slice_at tags tag @ strings_Split vals (CHR '','')) tags))
      else extractTags_loop ms requestedTags tags)"

definition extractTags :: "string \<Rightarrow> (string, bool) gomap \<Rightarrow> (string, string list) gomap" where
  "extractTags b requestedTags = extractTags_loop (genTagRe_FindAllSubmatch b) requestedTags []"


section \<open>Errors, the file tree and the path functions\<close>

text \<open>
  An \<^verbatim>\<open>error\<close> value is either the sentinel \<^verbatim>\<open>filepath.SkipDir\<close> or an
  error of the operating system. The tree under the root is a \<open>node\<close>: a file with
  the result of reading it, a directory with its entries in the order
  \<^verbatim>\<open>readDirNames\<close> returns them (sorted), a directory that cannot be listed, or a
  name whose \<^verbatim>\<open>Lstat\<close> fails. \<^verbatim>\<open>ioutil.ReadFile\<close> of a directory fails.

  \<^verbatim>\<open>filepath.Join\<close> and \<^verbatim>\<open>filepath.Dir\<close> are modelled on the paths the walk
  forms: slash-separated, already clean, joined with one entry name at a time
  (\<^verbatim>\<open>Join(".", name)\<close> cleans to \<^verbatim>\<open>name\<close>).
\<close>

datatype errno = ENOENT | EACCES | EISDIR | EIO

datatype error = SkipDir | PathError errno

datatype node =
    File "errno + string"
  | Dir "(string \<times> node) list"
  | UnreadableDir errno
  | NoStat errno

fun IsDir :: "node \<Rightarrow> bool" where
  "IsDir (Dir es) = True"
| "IsDir (UnreadableDir e) = True"
| "IsDir info = False"

fun ioutil_ReadFile :: "node \<Rightarrow> error + string" where
  "ioutil_ReadFile (File (Inl e)) = Inl (PathError e)"
| "ioutil_ReadFile (File (Inr b)) = Inr b"
| "ioutil_ReadFile (Dir es) = Inl (PathError EISDIR)"
| "ioutil_ReadFile (UnreadableDir e) = Inl (PathError EISDIR)"
| "ioutil_ReadFile (NoStat e) = Inl (PathError e)"

definition filepath_Join :: "string \<Rightarrow> string \<Rightarrow> string" where
  "filepath_Join dir name = (if dir = ''.'' then name else dir @ ''/'' @ name)"

definition filepath_Dir :: "string \<Rightarrow> string" where
  "filepath_Dir path =
     (let d = rev (dropWhile (\<lambda>c. c \<noteq> CHR ''/'') (rev path))
      in if d = [] then ''.'' else if d = ''/'' then ''/'' else butlast d)"

subsection \<open>filepath.Walk\<close>

text \<open>
  \<^verbatim>\<open>filepath.Walk\<close> and its helper \<^verbatim>\<open>walk\<close>, with the state the callback
  closes over passed explicitly. A directory is listed before the callback is invoked on
  it; a listing or \<^verbatim>\<open>Lstat\<close> error is handed to the callback. \<^verbatim>\<open>SkipDir\<close>
  returned for a directory skips that directory; returned for a file it ends the walk
  of the containing directory, whose own walk then returns \<^verbatim>\<open>SkipDir\<close> to its
  parent loop.
\<close>

type_synonym 's WalkFunc = "string \<Rightarrow> node \<Rightarrow> error option \<Rightarrow> 's \<Rightarrow> error option \<times> 's"

fun lstat :: "node \<Rightarrow> error option" where
  "lstat (NoStat e) = Some (PathError e)"
| "lstat info = None"

fun walk :: "string \<Rightarrow> node \<Rightarrow> 's WalkFunc \<Rightarrow> 's \<Rightarrow> error option \<times> 's"
and walk_names :: "string \<Rightarrow> (string \<times> node) list \<Rightarrow> 's WalkFunc \<Rightarrow> 's \<Rightarrow> error option \<times> 's" where
  "walk path (Dir names) walkFn st =
     (let (err1, st1) = walkFn path (Dir names) None st
      in if err1 \<noteq> None then (err1, st1) else walk_names path names walkFn st1)"
| "walk path (UnreadableDir e) walkFn st = walkFn path (UnreadableDir e) (Some (PathError e)) st"
| "walk path (File r) walkFn st = walkFn path (File r) None st"
| "walk path (NoStat e) walkFn st = walkFn path (NoStat e) None st"
| "walk_names path [] walkFn st = (None, st)"
| "walk_names path ((name, fileInfo) # names) walkFn st =
     (let filename = filepath_Join path name in
      if lstat fileInfo \<noteq> None then
        (let (err, st1) = walkFn filename fileInfo (lstat fileInfo) st
         in if err \<noteq> None \<and> err \<noteq> Some SkipDir then (err, st1)
            else walk_names path names walkFn st1)
      else
        (let (err, st1) = walk filename fileInfo walkFn st
         in if err \<noteq> None \<and> (\<not> IsDir fileInfo \<or> err \<noteq> Some SkipDir) then (err, st1)
            else walk_names path names walkFn st1))"

definition filepath_Walk :: "string \<Rightarrow> node \<Rightarrow> 's WalkFunc \<Rightarrow> 's \<Rightarrow> error option \<times> 's" where
  "filepath_Walk root info fn st =
     (let (err, st1) = (if lstat info \<noteq> None then fn root info (lstat info) st
                        else walk root info fn st)
      in if err = Some SkipDir then (None, st1) else (err, st1))"


fun names_ok :: "(string \<Rightarrow> bool) \<Rightarrow> node \<Rightarrow> bool"
and names_ok_list :: "(string \<Rightarrow> bool) \<Rightarrow> (string \<times> node) list \<Rightarrow> bool" where
  "names_ok N (Dir names) = names_ok_list N names"
| "names_ok N (File r) = True"
| "names_ok N (UnreadableDir e) = True"
| "names_ok N (NoStat e) = True"
| "names_ok_list N [] = True"
| "names_ok_list N ((name, fileInfo) # names) =
     (N name \<and> names_ok N fileInfo \<and> names_ok_list N names)"

definition fatal :: "error option \<Rightarrow> bool" where
  "fatal r = (r \<noteq> None \<and> r \<noteq> Some SkipDir)"

section \<open>findGeneratorTags\<close>

type_synonym generatorTagsValuesPkgsMap =
  "(string, (string, (string, bool) gomap) gomap) gomap"

definition map_at :: "('k, ('a \<times> 'b) list) gomap \<Rightarrow> 'k \<Rightarrow> ('a \<times> 'b) list" where
  "map_at m k = (case map_of m k of None \<Rightarrow> [] | Some x \<Rightarrow> x)"

record Cfg =
  GoPrefix :: string
  K8sCodegenBzlFile :: string
  K8sCodegenBoilerplateFile :: string
  K8sCodegenTags :: "string list"

record Vendorer =
  cfg :: Cfg
  dryRun :: bool
  skippedK8sCodegenPaths :: "(string \<Rightarrow> bool) list"

text \<open>
  The state of the walk: the map the callback fills, and a ghost trace with one entry
  per callback invocation (the path, the error handed in, the result of
  \<^verbatim>\<open>ioutil.ReadFile\<close> if it was called, and the error returned).
\<close>

record call =
  call_path :: string
  call_err :: "error option"
  call_read :: "(error + string) option"
  call_ret :: "error option"

record wstate =
  tagsValuesPkgs :: generatorTagsValuesPkgsMap
  trace :: "call list"

text \<open>
  The loop over \<^verbatim>\<open>v.skippedK8sCodegenPaths\<close>; a compiled pattern is its
  \<^verbatim>\<open>MatchString\<close> predicate.
\<close>

fun skipped :: "(string \<Rightarrow> bool) list \<Rightarrow> string \<Rightarrow> bool" where
  "skipped [] pkg = False"
| "skipped (r # rs) pkg = (if r pkg then True else skipped rs pkg)"

text \<open>
  The two nested loops that merge the tags of one file into the map:
  \<open>add_values\<close> is the loop over the values of one tag, \<open>merge_tags\<close> the loop over
  the extracted tags.
\<close>

fun add_values ::
  "string \<Rightarrow> string list \<Rightarrow> (string, (string, bool) gomap) gomap
     \<Rightarrow> (string, (string, bool) gomap) gomap" where
  "add_values pkg [] sub = sub"
| "add_values pkg (v # vs) sub =
     (let sub1 = (if map_of sub v = None then AList.update v [] sub else sub)
      in add_values pkg vs (AList.update v (AList.update pkg True (map_at sub1 v)) sub1))"

fun merge_tags ::
  "string \<Rightarrow> (string, string list) gomap \<Rightarrow> generatorTagsValuesPkgsMap
     \<Rightarrow> generatorTagsValuesPkgsMap" where
  "merge_tags pkg [] tvp = tvp"
| "merge_tags pkg ((tag, vals) # rest) tvp =
     (let tvp1 = (if map_of tvp tag = None then AList.update tag [] tvp else tvp)
      in merge_tags pkg rest (AList.update tag (add_values pkg vals (map_at tvp1 tag)) tvp1))"

definition logged :: "string \<Rightarrow> error option \<Rightarrow> (error + string) option \<Rightarrow> error option
     \<Rightarrow> wstate \<Rightarrow> wstate" where
  "logged path err rd ret st =
     st\<lparr>trace := trace st @ [\<lparr>call_path = path, call_err = err, call_read = rd, call_ret = ret\<rparr>]\<rparr>"

text \<open>The function literal passed to \<^verbatim>\<open>filepath.Walk\<close>.\<close>

definition walkFn :: "Vendorer \<Rightarrow> (string, bool) gomap \<Rightarrow> wstate WalkFunc" where
  "walkFn v requestedTags path info err st =
     (case err of
        Some e \<Rightarrow> (Some e, logged path err None (Some e) st)
      | None \<Rightarrow>
          (let pkg = filepath_Dir path in
           if skipped (skippedK8sCodegenPaths v) pkg
           then (Some SkipDir, logged path err None (Some SkipDir) st)
           else if \<not> HasSuffix path ''.go'' \<or> HasSuffix path ''_test.go''
           then (None, logged path err None None st)
           else (case ioutil_ReadFile info of
                   Inl e \<Rightarrow> (Some e, logged path err (Some (Inl e)) (Some e) st)
                 | Inr b \<Rightarrow>
                     (None, logged path err (Some (Inr b)) None
                        (st\<lparr>tagsValuesPkgs :=
                              merge_tags pkg (extractTags b requestedTags) (tagsValuesPkgs st)\<rparr>)))))"

text \<open>
  \<open>findGeneratorTags_walk\<close> is the call of \<^verbatim>\<open>filepath.Walk\<close> with the final state
  of the closure; \<open>findGeneratorTags\<close> is the function with its pair of results.
\<close>

definition findGeneratorTags_walk ::
  "Vendorer \<Rightarrow> string \<Rightarrow> (string, bool) gomap \<Rightarrow> node \<Rightarrow> error option \<times> wstate" where
  "findGeneratorTags_walk v root requestedTags fs =
     filepath_Walk root fs (walkFn v requestedTags) \<lparr>tagsValuesPkgs = [], trace = []\<rparr>"

definition findGeneratorTags ::
  "Vendorer \<Rightarrow> string \<Rightarrow> (string, bool) gomap \<Rightarrow> node
     \<Rightarrow> generatorTagsValuesPkgsMap option \<times> error option" where
  "findGeneratorTags v root requestedTags fs =
     (case findGeneratorTags_walk v root requestedTags fs of
        (Some walkErr, st) \<Rightarrow> (None, Some walkErr)
      | (None, st) \<Rightarrow> (Some (tagsValuesPkgs st), None))"

section \<open>flattened\<close>

text \<open>
  The three nested loops of \<^verbatim>\<open>flattened\<close>. \<^verbatim>\<open>sort.Strings\<close> sorts the slice
  stored under the key in place (byte-wise lexicographic order, the order of
  \<^typ>\<open>string\<close> here); when nothing was appended the key stays absent.
\<close>

fun append_keys ::
  "(string, bool) gomap \<Rightarrow> string \<Rightarrow> (string, string list) gomap \<Rightarrow> (string, string list) gomap" where
  "append_keys [] k out = out"
| "append_keys ((v, b) # subSet) k out = append_keys subSet k (AList.update k (slice_at out k @ [v]) out)"

definition sort_Strings_at :: "string \<Rightarrow> (string, string list) gomap \<Rightarrow> (string, string list) gomap" where
  "sort_Strings_at k out = (case map_of out k of None \<Rightarrow> out | Some l \<Rightarrow> AList.update k (sort l) out)"

fun flattened_sub ::
  "(string, (string, bool) gomap) gomap \<Rightarrow> (string, string list) gomap \<Rightarrow> (string, string list) gomap" where
  "flattened_sub [] out = out"
| "flattened_sub ((k, subSet) # subMap) out =
     flattened_sub subMap (sort_Strings_at k (append_keys subSet k out))"

fun flattened_loop ::
  "generatorTagsValuesPkgsMap \<Rightarrow> (string, (string, string list) gomap) gomap
     \<Rightarrow> (string, (string, string list) gomap) gomap" where
  "flattened_loop [] out = out"
| "flattened_loop ((tag, subMap) # m) out =
     (let out1 = AList.update tag [] out
      in flattened_loop m (AList.update tag (flattened_sub subMap (map_at out1 tag)) out1))"

definition flattened ::
  "generatorTagsValuesPkgsMap \<Rightarrow> (string, (string, string list) gomap) gomap" where
  "flattened m = flattened_loop m []"


text \<open>
  The invariant of the map type: at each of the three levels the keys are distinct.
\<close>

definition wf_index :: "generatorTagsValuesPkgsMap \<Rightarrow> bool" where
  "wf_index m =
     (distinct (map fst m) \<and>
      (\<forall>(tag, subMap) \<in> set m.
         distinct (map fst subMap) \<and> (\<forall>(k, subSet) \<in> set subMap. distinct (map fst subSet))))"

section \<open>walkGenerated\<close>

text \<open>
  \<^verbatim>\<open>addCommentBefore\<close>, \<^verbatim>\<open>varExpr\<close> and \<^verbatim>\<open>writeFile\<close> are defined in
  other files of the package and are parameters here (\<open>helpers\<close>), as is the expression
  type of \<^verbatim>\<open>build.File\<close>; \<open>walkGenerated_File\<close> is the document that
  \<open>walkGenerated\<close> builds with them. The operating system is the tree under \<^verbatim>\<open>.\<close>
  and the results of \<^verbatim>\<open>ioutil.ReadFile\<close> and \<^verbatim>\<open>os.Stat\<close> on a path.
  \<open>walkGenerated\<close> returns the pair of results of the Go function and the list of the
  effects it performed, in order.
\<close>

record 'e build_File =
  Path :: string
  Before :: "string list"
  Stmt :: "'e list"

datatype gval =
    StringVal string
  | StringsVal "string list"
  | TagsValuesPkgsVal "(string, (string, string list) gomap) gomap"

record 'e helpers =
  addCommentBefore :: "'e build_File \<Rightarrow> string \<Rightarrow> 'e build_File"
  varExpr :: "string \<Rightarrow> string \<Rightarrow> gval \<Rightarrow> 'e"
  writeFile :: "string \<Rightarrow> 'e build_File \<Rightarrow> string option \<Rightarrow> bool \<Rightarrow> bool \<Rightarrow> bool \<times> error option"

record os =
  tree :: node
  ReadFile :: "string \<Rightarrow> error + string"
  Stat :: "string \<Rightarrow> error option"

datatype 'e effect =
    Walked string "call list"
  | ReadFileCalled string
  | StatCalled string
  | WriteFileCalled string "'e build_File" "string option" bool bool

definition IsNotExist :: "error option \<Rightarrow> bool" where
  "IsNotExist err = (err = Some (PathError ENOENT))"

fun requested_set :: "string list \<Rightarrow> (string, bool) gomap \<Rightarrow> (string, bool) gomap" where
  "requested_set [] requestedTags = requestedTags"
| "requested_set (tag # tags) requestedTags = requested_set tags (AList.update tag True requestedTags)"

definition walkGenerated_File :: "'e helpers \<Rightarrow> Vendorer \<Rightarrow> generatorTagsValuesPkgsMap \<Rightarrow> 'e build_File" where
  "walkGenerated_File h v tvp =
     (let f0 = \<lparr>Path = K8sCodegenBzlFile (cfg v), Before = [], Stmt = []\<rparr>;
          f1 = addCommentBefore h f0 ''#################################################'';
          f2 = addCommentBefore h f1 ''# # # # # # # # # # # # # # # # # # # # # # # # #'';
          f3 = addCommentBefore h f2 ''This file is autogenerated by kazel. DO NOT EDIT.'';
          f4 = addCommentBefore h f3 ''# # # # # # # # # # # # # # # # # # # # # # # # #'';
          f5 = addCommentBefore h f4 ''#################################################'';
          f6 = addCommentBefore h f5 [];
          f7 = f6\<lparr>Stmt := Stmt f6 @ [varExpr h ''go_prefix'' ''The go prefix passed to kazel''
                                       (StringVal (GoPrefix (cfg v)))]\<rparr>;
          f8 = f7\<lparr>Stmt := Stmt f7 @ [varExpr h ''kazel_configured_tags''
                                       ''The list of codegen tags kazel is configured to find''
                                       (StringsVal (K8sCodegenTags (cfg v)))]\<rparr>
      in f8\<lparr>Stmt := Stmt f8 @ [varExpr h ''tags_values_pkgs''
              ''tags_values_pkgs is a dictionary mapping {k8s build tag: {tag value: [pkgs including that tag:value]}}''
              (TagsValuesPkgsVal (flattened tvp))]\<rparr>)"

definition walkGenerated ::
  "'e helpers \<Rightarrow> Vendorer \<Rightarrow> os \<Rightarrow> (bool \<times> error option) \<times> 'e effect list" where
  "walkGenerated h v w =
     (if K8sCodegenBzlFile (cfg v) = [] then ((False, None), [])
      else
        (let requestedTags = requested_set (K8sCodegenTags (cfg v)) [];
             (walkErr, st) = findGeneratorTags_walk v ''.'' requestedTags (tree w);
             eff1 = [Walked ''.'' (trace st)]
         in case findGeneratorTags v ''.'' requestedTags (tree w) of
              (_, Some err) \<Rightarrow> ((False, Some err), eff1)
            | (None, None) \<Rightarrow> ((False, None), eff1)
            | (Some tvp, None) \<Rightarrow>
                (let f = walkGenerated_File h v tvp;
                     (rd, eff2) =
                       (if K8sCodegenBoilerplateFile (cfg v) \<noteq> []
                        then (case ReadFile w (K8sCodegenBoilerplateFile (cfg v)) of
                                Inl e \<Rightarrow> (Inl e, eff1 @ [ReadFileCalled (K8sCodegenBoilerplateFile (cfg v))])
                              | Inr b \<Rightarrow> (Inr (Some b), eff1 @ [ReadFileCalled (K8sCodegenBoilerplateFile (cfg v))]))
                        else (Inr None, eff1))
                 in case rd of
                      Inl e \<Rightarrow> ((False, Some e), eff2)
                    | Inr boilerplate \<Rightarrow>
                        (let err = Stat w (Path f);
                             eff3 = eff2 @ [StatCalled (Path f)]
                         in if err \<noteq> None \<and> \<not> IsNotExist err then ((False, err), eff3)
                            else (writeFile h (Path f) f boilerplate (\<not> IsNotExist err) (dryRun v),
                                  eff3 @ [WriteFileCalled (Path f) f boilerplate (\<not> IsNotExist err) (dryRun v)])))))"


section \<open>Vocabulary of the statements\<close>

text \<open>
  \<open>pkgs_of m tag v\<close> lists the packages recorded for the pair of \<open>tag\<close> and \<open>v\<close> (the keys
  of \<^verbatim>\<open>m[tag][v]\<close>), and \<open>wf_sub\<close> is the invariant of the two inner levels of the
  map.
\<close>

definition pkgs_of :: "generatorTagsValuesPkgsMap \<Rightarrow> string \<Rightarrow> string \<Rightarrow> string list" where
  "pkgs_of m tag v = map fst (map_at (map_at m tag) v)"

definition wf_sub :: "(string, (string, bool) gomap) gomap \<Rightarrow> bool" where
  "wf_sub sub = (distinct (map fst sub) \<and> (\<forall>(k, subSet) \<in> set sub. distinct (map fst subSet)))"

text \<open>
  What one callback invocation of the trace contributes to the map (\<open>contribute\<close>), the
  checks that precede a call of \<^verbatim>\<open>ioutil.ReadFile\<close> (\<open>read_ok\<close>), and the fact
  that the tags of a file that was read are recorded under its directory
  (\<open>recorded\<close>).
\<close>

definition contribute :: "(string, bool) gomap \<Rightarrow> generatorTagsValuesPkgsMap \<Rightarrow> call \<Rightarrow> generatorTagsValuesPkgsMap" where
  "contribute requestedTags m c =
     (case call_read c of
        Some (Inr b) \<Rightarrow> merge_tags (filepath_Dir (call_path c)) (extractTags b requestedTags) m
      | _ \<Rightarrow> m)"

definition read_ok :: "Vendorer \<Rightarrow> call \<Rightarrow> bool" where
  "read_ok v c =
     (call_read c \<noteq> None \<longrightarrow>
        call_err c = None \<and> \<not> skipped (skippedK8sCodegenPaths v) (filepath_Dir (call_path c)) \<and>
        HasSuffix (call_path c) ''.go'' \<and> \<not> HasSuffix (call_path c) ''_test.go'')"

definition recorded :: "(string, bool) gomap \<Rightarrow> generatorTagsValuesPkgsMap \<Rightarrow> call \<Rightarrow> bool" where
  "recorded requestedTags m c =
     (\<forall>b tag vals val.
        call_read c = Some (Inr b) \<and> (tag, vals) \<in> set (extractTags b requestedTags) \<and> val \<in> set vals \<longrightarrow>
        filepath_Dir (call_path c) \<in> set (pkgs_of m tag val))"









text \<open>
  For \<open>walkGenerated\<close>: the effects that write, and the boilerplate that the
  configuration and the file system determine (an error when a configured file cannot
  be read).
\<close>

fun is_write :: "'e effect \<Rightarrow> bool" where
  "is_write (WriteFileCalled path f boilerplate fileExists dry) = True"
| "is_write (Walked root calls) = False"
| "is_write (ReadFileCalled path) = False"
| "is_write (StatCalled path) = False"

definition boilerplate_of :: "Vendorer \<Rightarrow> os \<Rightarrow> error + string option" where
  "boilerplate_of v w =
     (if K8sCodegenBoilerplateFile (cfg v) \<noteq> []
      then (case ReadFile w (K8sCodegenBoilerplateFile (cfg v)) of
              Inl e \<Rightarrow> Inl e
            | Inr b \<Rightarrow> Inr (Some b))
      else Inr None)"

subsection \<open>A small tree\<close>

text \<open>
  A configuration that skips \<^verbatim>\<open>vendor\<close>, a tree with two tagged files and a test
  file in one package and tagged files under \<^verbatim>\<open>vendor\<close>, the state in which the
  walk of this tree ends, a tree whose first file cannot be read, and stand-ins for the
  helpers and the operating system of \<open>walkGenerated\<close>.
\<close>

definition example_vendorer :: Vendorer where
  "example_vendorer =
     \<lparr>cfg = \<lparr>GoPrefix = ''k8s.io/kubernetes'', K8sCodegenBzlFile = ''build/codegen.bzl'',
             K8sCodegenBoilerplateFile = [], K8sCodegenTags = [''openapi-gen'']\<rparr>,
      dryRun = False,
      skippedK8sCodegenPaths = [\<lambda>pkg. pkg = ''vendor'']\<rparr>"

definition example_tree :: node where
  "example_tree =
     Dir [(''api'', Dir [(''doc.go'', File (Inr ''// +k8s:openapi-gen=true\<newline>'')),
                         (''types.go'', File (Inr ''// +k8s:openapi-gen=true\<newline>'')),
                         (''types_test.go'', File (Inr ''// +k8s:openapi-gen=false\<newline>''))]),
          (''vendor'', Dir [(''lib'', Dir [(''lib.go'', File (Inr ''// +k8s:openapi-gen=true\<newline>''))]),
                            (''v.go'', File (Inr ''// +k8s:openapi-gen=true\<newline>''))])]"

definition example_state :: wstate where
  "example_state =
     \<lparr>tagsValuesPkgs = [(''openapi-gen'', [(''true'', [(''api'', True)])])],
      trace =
        [\<lparr>call_path = ''.'', call_err = None, call_read = None, call_ret = None\<rparr>,
         \<lparr>call_path = ''api'', call_err = None, call_read = None, call_ret = None\<rparr>,
         \<lparr>call_path = ''api/doc.go'', call_err = None,
            call_read = Some (Inr ''// +k8s:openapi-gen=true\<newline>''), call_ret = None\<rparr>,
         \<lparr>call_path = ''api/types.go'', call_err = None,
            call_read = Some (Inr ''// +k8s:openapi-gen=true\<newline>''), call_ret = None\<rparr>,
         \<lparr>call_path = ''api/types_test.go'', call_err = None, call_read = None, call_ret = None\<rparr>,
         \<lparr>call_path = ''vendor'', call_err = None, call_read = None, call_ret = None\<rparr>,
         \<lparr>call_path = ''vendor/lib'', call_err = None, call_read = None, call_ret = Some SkipDir\<rparr>,
         \<lparr>call_path = ''vendor/v.go'', call_err = None, call_read = None, call_ret = Some SkipDir\<rparr>]\<rparr>"


definition example_helpers :: "(string \<times> string \<times> gval) helpers" where
  "example_helpers =
     \<lparr>addCommentBefore = (\<lambda>f c. f\<lparr>Before := Before f @ [c]\<rparr>),
      varExpr = (\<lambda>name c x. (name, c, x)),
      writeFile = (\<lambda>path f boilerplate fileExists dry. (\<not> fileExists, None))\<rparr>"

definition example_os :: "error option \<Rightarrow> os" where
  "example_os stat = \<lparr>tree = example_tree, ReadFile = (\<lambda>path. Inl (PathError ENOENT)), Stat = (\<lambda>path. stat)\<rparr>"

section \<open>Properties of extractTags\<close>

lemma update_key_cases:
  "(k, x) \<in> set (AList.update k' v al) \<Longrightarrow> (k = k' \<and> x = v) \<or> (k, x) \<in> set al"
  by (induction al) (auto split: if_splits)

lemma extractTags_loop_requested:
  "(tag, vals) \<in> set (extractTags_loop ms requestedTags tags) \<Longrightarrow>
     (\<exists>vs. (tag, vs) \<in> set tags) \<or> map_of requestedTags tag \<noteq> None"
proof (induction ms arbitrary: tags)
  case Nil
  then show ?case by auto
next
  case (Cons m ms)
  show ?case
  proof (cases "3 \<le> length m \<and> map_of requestedTags (m ! 1) \<noteq> None")
    case False
    with Cons.prems have "(tag, vals) \<in> set (extractTags_loop ms requestedTags tags)"
      by (auto simp: Let_def split: if_splits)
    then show ?thesis by (rule Cons.IH)
  next
    case True
    let ?tags' = "AList.update (m ! 1) (slice_at tags (m ! 1) @ strings_Split (m ! 2) (CHR '','')) tags"
    from True Cons.prems have "(tag, vals) \<in> set (extractTags_loop ms requestedTags ?tags')"
      by (auto simp: Let_def split: if_splits)
    from Cons.IH[OF this] show ?thesis
    proof
      assume "\<exists>vs. (tag, vs) \<in> set ?tags'"
      then obtain vs where "(tag, vs) \<in> set ?tags'" by blast
      from update_key_cases[OF this] True show ?thesis by auto
    next
      assume "map_of requestedTags tag \<noteq> None"
      then show ?thesis by simp
    qed
  qed
qed

lemma extractTags_loop_unrequested:
  "\<forall>m \<in> set ms. map_of requestedTags (m ! 1) = None \<Longrightarrow>
     extractTags_loop ms requestedTags tags = tags"
  by (induction ms arbitrary: tags) (auto simp: Let_def)

text \<open>
  C3: every key of the mapping returned by \<open>extractTags\<close> is a key of
  \<open>requestedTags\<close>; matches whose tag is not requested leave no trace in the result, and
  when no match is found (or every match is for an unrequested tag) the result is the
  empty mapping. \<open>extractTags\<close> is a total function: there is no error case.
\<close>

theorem extractTags_only_requested:
  "(\<forall>(tag, vals) \<in> set (extractTags b requestedTags). map_of requestedTags tag \<noteq> None)
   \<and> ((\<forall>m \<in> set (genTagRe_FindAllSubmatch b). map_of requestedTags (m ! 1) = None)
        \<longrightarrow> extractTags b requestedTags = [])
   \<and> (genTagRe_FindAllSubmatch b = [] \<longrightarrow> extractTags b requestedTags = [])"
proof (intro conjI)
  show "\<forall>(tag, vals) \<in> set (extractTags b requestedTags). map_of requestedTags tag \<noteq> None"
    unfolding extractTags_def using extractTags_loop_requested[where tags="[]"] by fastforce
  show "(\<forall>m \<in> set (genTagRe_FindAllSubmatch b). map_of requestedTags (m ! 1) = None)
        \<longrightarrow> extractTags b requestedTags = []"
    unfolding extractTags_def by (simp add: extractTags_loop_unrequested)
  show "genTagRe_FindAllSubmatch b = [] \<longrightarrow> extractTags b requestedTags = []"
    unfolding extractTags_def by simp
qed

theorem extractTags_only_requested_witness:
  "extractTags ''// +k8s:deepcopy-gen=package\<newline>// +k8s:openapi-gen=true\<newline>'' [(''openapi-gen'', True)]
     = [(''openapi-gen'', [''true''])]
   \<and> map_of [(''openapi-gen'', True)] ''openapi-gen'' \<noteq> None
   \<and> genTagRe_FindAllSubmatch ''package main\<newline>'' = []
   \<and> extractTags ''package main\<newline>'' [(''openapi-gen'', True)] = []"
proof -
  have e1: "extractTags ''// +k8s:deepcopy-gen=package\<newline>// +k8s:openapi-gen=true\<newline>'' [(''openapi-gen'', True)]
     = [(''openapi-gen'', [''true''])]"
    by code_simp
  have e2: "genTagRe_FindAllSubmatch ''package main\<newline>'' = []"
    by code_simp
  from extractTags_only_requested[of "''// +k8s:deepcopy-gen=package\<newline>// +k8s:openapi-gen=true\<newline>''" "[(''openapi-gen'', True)]"]
  have "map_of [(''openapi-gen'', True)] ''openapi-gen'' \<noteq> None"
    unfolding e1 by simp
  moreover from extractTags_only_requested[of "''package main\<newline>''" "[(''openapi-gen'', True)]"] e2
  have "extractTags ''package main\<newline>'' [(''openapi-gen'', True)] = []"
    by blast
  ultimately show ?thesis using e1 e2 by blast
qed



subsection \<open>The values of a tag\<close>

lemma strings_Split_nonempty: "strings_Split s sep \<noteq> []"
  by (induction s) (auto split: list.splits)

lemma strings_Split_length: "length (strings_Split s sep) = Suc (count_list s sep)"
  by (induction s) (auto split: list.splits)




lemma extractTags_loop_nonempty:
  "\<forall>(k, vs) \<in> set tags. vs \<noteq> [] \<Longrightarrow>
     \<forall>(k, vs) \<in> set (extractTags_loop ms requestedTags tags). vs \<noteq> []"
proof (induction ms arbitrary: tags)
  case Nil
  then show ?case by simp
next
  case (Cons m ms)
  let ?tags' = "AList.update (m ! 1) (slice_at tags (m ! 1) @ strings_Split (m ! 2) (CHR '','')) tags"
  have "\<forall>(k, vs) \<in> set ?tags'. vs \<noteq> []"
    using Cons.prems by (auto dest!: update_key_cases simp: strings_Split_nonempty)
  from Cons.IH[OF this] Cons.IH[OF Cons.prems] show ?case
    by (simp add: Let_def)
qed




lemma slice_at_update:
  "slice_at (AList.update k v al) k' = (if k' = k then v else slice_at al k')"
  by (simp add: slice_at_def update_conv')



subsection \<open>The matches of genTagRe in closed form\<close>





















subsection \<open>Order of the values and empty values\<close>






text \<open>
  C10: \<open>extractTags\<close> returns empty strings as values for a payload with consecutive
  or trailing commas, since the payload is split at every comma and no piece is
  dropped (the split has one more piece than the payload has commas); and a tag that is
  present in the result has at least one value.
\<close>

theorem extractTags_empty_values:
  "extractTags ''// +k8s:t=a,,b\<newline>'' [(''t'', True)] = [(''t'', [''a'', [], ''b''])]
   \<and> extractTags ''// +k8s:t=a,\<newline>'' [(''t'', True)] = [(''t'', [''a'', []])]
   \<and> (\<forall>(tag, vals) \<in> set (extractTags b requestedTags). vals \<noteq> [])
   \<and> length (strings_Split s (CHR '','')) = Suc (count_list s (CHR '',''))"
proof (intro conjI)
  show "extractTags ''// +k8s:t=a,,b\<newline>'' [(''t'', True)] = [(''t'', [''a'', [], ''b''])]"
    by code_simp
  show "extractTags ''// +k8s:t=a,\<newline>'' [(''t'', True)] = [(''t'', [''a'', []])]"
    by code_simp
  show "\<forall>(tag, vals) \<in> set (extractTags b requestedTags). vals \<noteq> []"
    unfolding extractTags_def by (rule extractTags_loop_nonempty) simp
  show "length (strings_Split s (CHR '','')) = Suc (count_list s (CHR '',''))"
    by (rule strings_Split_length)
qed

theorem extractTags_empty_values_witness:
  "extractTags ''// +k8s:t=,\<newline>'' [(''t'', True)] = [(''t'', [[], []])]
   \<and> [[], []] \<noteq> ([] :: string list)
   \<and> length (strings_Split '','' (CHR '','')) = 2"
proof -
  have e: "extractTags ''// +k8s:t=,\<newline>'' [(''t'', True)] = [(''t'', [[], []])]"
    by code_simp
  note th = extractTags_empty_values[of "''// +k8s:t=,\<newline>''" "[(''t'', True)]" "'',''"]
  from th have "(\<forall>(tag, vals) \<in> set (extractTags ''// +k8s:t=,\<newline>'' [(''t'', True)]). vals \<noteq> [])"
    by (elim conjE)
  moreover from th have "length (strings_Split '','' (CHR '','')) = Suc (count_list '','' (CHR '',''))"
    by (elim conjE)
  ultimately show ?thesis unfolding e by simp
qed


section \<open>Properties of flattened\<close>

lemma map_of_append_keys:
  "map_of (append_keys subSet k out) k' =
     (if k' = k \<and> subSet \<noteq> [] then Some (slice_at out k @ map fst subSet) else map_of out k')"
proof (induction subSet arbitrary: out)
  case Nil
  then show ?case by simp
next
  case (Cons p subSet)
  obtain v b where p: "p = (v, b)" by (cases p)
  show ?case
    unfolding p by (simp add: Cons.IH slice_at_update update_conv')
qed

lemma map_of_sort_Strings_at:
  "map_of (sort_Strings_at k out) k' =
     (if k' = k then map_option sort (map_of out k) else map_of out k')"
  by (cases "map_of out k") (simp_all add: sort_Strings_at_def update_conv')

lemma map_of_flattened_sub:
  assumes "distinct (map fst subMap)" "\<forall>k \<in> fst ` set subMap. map_of out k = None"
  shows "map_of (flattened_sub subMap out) k =
     (case map_of subMap k of
        None \<Rightarrow> map_of out k
      | Some subSet \<Rightarrow> if subSet = [] then None else Some (sort (map fst subSet)))"
  using assms
proof (induction subMap arbitrary: out)
  case Nil
  then show ?case by simp
next
  case (Cons p subMap)
  obtain k0 subSet0 where p: "p = (k0, subSet0)" by (cases p)
  let ?out' = "sort_Strings_at k0 (append_keys subSet0 k0 out)"
  from Cons.prems p have none0: "map_of out k0 = None" by simp
  then have s0: "slice_at out k0 = []" by (simp add: slice_at_def)
  have out': "\<And>k'. map_of ?out' k' =
      (if k' = k0 then (if subSet0 = [] then None else Some (sort (map fst subSet0))) else map_of out k')"
    by (simp add: map_of_sort_Strings_at map_of_append_keys s0 none0)
  from Cons.prems p have d: "distinct (map fst subMap)" and notin: "k0 \<notin> fst ` set subMap"
    by auto
  have pre: "\<forall>k \<in> fst ` set subMap. map_of ?out' k = None"
  proof
    fix k' assume k': "k' \<in> fst ` set subMap"
    with notin have "k' \<noteq> k0" by auto
    moreover from k' Cons.prems(2) have "map_of out k' = None" by auto
    ultimately show "map_of ?out' k' = None" by (simp add: out')
  qed
  from notin have m0: "map_of subMap k0 = None"
    by (simp add: map_of_eq_None_iff)
  have "map_of (flattened_sub (p # subMap) out) k = map_of (flattened_sub subMap ?out') k"
    unfolding p by simp
  also have "\<dots> = (case map_of subMap k of
        None \<Rightarrow> map_of ?out' k
      | Some subSet \<Rightarrow> if subSet = [] then None else Some (sort (map fst subSet)))"
    by (rule Cons.IH[OF d pre])
  also have "\<dots> = (case map_of (p # subMap) k of
        None \<Rightarrow> map_of out k
      | Some subSet \<Rightarrow> if subSet = [] then None else Some (sort (map fst subSet)))"
    unfolding p using m0 by (cases "k = k0") (simp_all add: out' split: option.split)
  finally show ?case .
qed

lemma map_at_update_same: "map_at (AList.update k v al) k = v"
  by (simp add: map_at_def update_conv')

lemma map_of_flattened_loop:
  assumes "distinct (map fst m)"
  shows "map_of (flattened_loop m out) tag =
     (case map_of m tag of
        None \<Rightarrow> map_of out tag
      | Some subMap \<Rightarrow> Some (flattened_sub subMap []))"
  using assms
proof (induction m arbitrary: out)
  case Nil
  then show ?case by simp
next
  case (Cons p m)
  obtain tag0 subMap0 where p: "p = (tag0, subMap0)" by (cases p)
  let ?out1 = "AList.update tag0 [] out"
  let ?out' = "AList.update tag0 (flattened_sub subMap0 (map_at ?out1 tag0)) ?out1"
  from Cons.prems p have d: "distinct (map fst m)" and notin: "tag0 \<notin> fst ` set m"
    by auto
  from notin have m0: "map_of m tag0 = None"
    by (simp add: map_of_eq_None_iff)
  have out': "map_of ?out' tag = (if tag = tag0 then Some (flattened_sub subMap0 []) else map_of out tag)"
    by (simp add: update_conv' map_at_update_same)
  have "map_of (flattened_loop (p # m) out) tag = map_of (flattened_loop m ?out') tag"
    unfolding p by (simp add: Let_def)
  also have "\<dots> = (case map_of m tag of
        None \<Rightarrow> map_of ?out' tag
      | Some subMap \<Rightarrow> Some (flattened_sub subMap []))"
    by (rule Cons.IH[OF d])
  also have "\<dots> = (case map_of (p # m) tag of
        None \<Rightarrow> map_of out tag
      | Some subMap \<Rightarrow> Some (flattened_sub subMap []))"
    unfolding p using m0
    by (cases "tag = tag0") (simp_all add: update_conv' map_at_update_same split: option.split)
  finally show ?case .
qed

lemma flattened_leaf:
  assumes wf: "wf_index m"
    and tag: "map_of m tag = Some subMap"
    and k: "map_of subMap k = Some subSet"
  shows "map_of (flattened m) tag = Some (flattened_sub subMap []) \<and>
         slice_at (flattened_sub subMap []) k = sorted_list_of_set (fst ` set subSet)"
proof -
  from wf have d: "distinct (map fst m)" by (simp add: wf_index_def)
  from tag have mem: "(tag, subMap) \<in> set m" by (rule map_of_SomeD)
  with wf have ds: "distinct (map fst subMap)" by (auto simp: wf_index_def)
  from k have "(k, subSet) \<in> set subMap" by (rule map_of_SomeD)
  with wf mem have dk: "distinct (map fst subSet)" by (fastforce simp: wf_index_def)
  have 1: "map_of (flattened m) tag = Some (flattened_sub subMap [])"
    unfolding flattened_def map_of_flattened_loop[OF d] using tag by simp
  have "map_of (flattened_sub subMap []) k = (if subSet = [] then None else Some (sort (map fst subSet)))"
    using map_of_flattened_sub[OF ds, of "[]" k] k by simp
  then have "slice_at (flattened_sub subMap []) k = sort (map fst subSet)"
    by (cases "subSet = []") (simp_all add: slice_at_def)
  also have "\<dots> = sorted_list_of_set (set (map fst subSet))"
    using dk by (simp only: sorted_list_of_set_sort_remdups distinct_remdups_id)
  finally show ?thesis using 1 by simp
qed


text \<open>
  C2: for every index (a map with distinct keys at each level) and every pair of a tag
  and a value in it, the leaf that \<open>flattened\<close> produces for the pair is the sorted list,
  without duplicates, of the packages of the pair: it is determined by the set of
  packages alone, whatever the order in which they were inserted or are iterated.
  Conversely every leaf of the result is sorted, free of duplicates, and comes from a
  pair of the index. \<open>flattened\<close> is a total function without error case.
\<close>

theorem flattened_sorted_distinct:
  assumes "wf_index m"
  shows "(\<forall>tag subMap k subSet.
            map_of m tag = Some subMap \<and> map_of subMap k = Some subSet \<longrightarrow>
            (\<exists>sub. map_of (flattened m) tag = Some sub \<and>
                   slice_at sub k = sorted_list_of_set (fst ` set subSet)))
       \<and> (\<forall>tag sub k leaf.
            map_of (flattened m) tag = Some sub \<and> map_of sub k = Some leaf \<longrightarrow>
            sorted leaf \<and> distinct leaf \<and>
            (\<exists>subMap subSet. map_of m tag = Some subMap \<and> map_of subMap k = Some subSet \<and>
                 leaf = sorted_list_of_set (fst ` set subSet)))"
proof (rule conjI)
  show "\<forall>tag subMap k subSet.
            map_of m tag = Some subMap \<and> map_of subMap k = Some subSet \<longrightarrow>
            (\<exists>sub. map_of (flattened m) tag = Some sub \<and>
                   slice_at sub k = sorted_list_of_set (fst ` set subSet))"
    using flattened_leaf[OF assms] by blast
  show "\<forall>tag sub k leaf.
            map_of (flattened m) tag = Some sub \<and> map_of sub k = Some leaf \<longrightarrow>
            sorted leaf \<and> distinct leaf \<and>
            (\<exists>subMap subSet. map_of m tag = Some subMap \<and> map_of subMap k = Some subSet \<and>
                 leaf = sorted_list_of_set (fst ` set subSet))"
  proof (rule allI, rule allI, rule allI, rule allI, rule impI)
    fix tag sub k leaf
    assume a: "map_of (flattened m) tag = Some sub \<and> map_of sub k = Some leaf"
    from assms have d: "distinct (map fst m)" by (simp add: wf_index_def)
    from a obtain subMap where tag: "map_of m tag = Some subMap" and sub: "sub = flattened_sub subMap []"
      unfolding flattened_def map_of_flattened_loop[OF d] by (cases "map_of m tag") auto
    from tag have mem: "(tag, subMap) \<in> set m" by (rule map_of_SomeD)
    with assms have ds: "distinct (map fst subMap)" by (auto simp: wf_index_def)
    from a sub obtain subSet where k: "map_of subMap k = Some subSet"
      using map_of_flattened_sub[OF ds, of "[]" k] by (cases "map_of subMap k") auto
    from flattened_leaf[OF assms tag k] a sub
    have leaf: "slice_at sub k = sorted_list_of_set (fst ` set subSet)" by simp
    from a have "slice_at sub k = leaf" by (simp add: slice_at_def)
    with leaf have eq: "leaf = sorted_list_of_set (fst ` set subSet)" by simp
    then have "sorted leaf" "distinct leaf" by simp_all
    with eq tag k
    show "sorted leaf \<and> distinct leaf \<and>
              (\<exists>subMap subSet. map_of m tag = Some subMap \<and> map_of subMap k = Some subSet \<and>
                   leaf = sorted_list_of_set (fst ` set subSet))"
      by blast
  qed
qed

theorem flattened_sorted_distinct_witness:
  "wf_index [(''t'', [(''v'', [(''z'', True), (''a/b'', True), (''.'', True), (''a'', True)])])]
   \<and> flattened [(''t'', [(''v'', [(''z'', True), (''a/b'', True), (''.'', True), (''a'', True)])])]
        = [(''t'', [(''v'', [''.'', ''a'', ''a/b'', ''z''])])]
   \<and> sorted [''.'', ''a'', ''a/b'', ''z''] \<and> distinct [''.'', ''a'', ''a/b'', ''z'']"
proof -
  let ?m = "[(''t'', [(''v'', [(''z'', True), (''a/b'', True), (''.'', True), (''a'', True)])])]"
  have wf: "wf_index ?m" by (simp add: wf_index_def)
  have fl: "flattened ?m = [(''t'', [(''v'', [''.'', ''a'', ''a/b'', ''z''])])]"
    by code_simp
  have "map_of (flattened ?m) ''t'' = Some [(''v'', [''.'', ''a'', ''a/b'', ''z''])]
        \<and> map_of [(''v'', [''.'', ''a'', ''a/b'', ''z''])] ''v'' = Some [''.'', ''a'', ''a/b'', ''z'']"
    unfolding fl by simp
  with conjunct2[OF flattened_sorted_distinct[OF wf], rule_format,
      of "''t''" "[(''v'', [''.'', ''a'', ''a/b'', ''z''])]" "''v''" "[''.'', ''a'', ''a/b'', ''z'']"]
  have "sorted [''.'', ''a'', ''a/b'', ''z''] \<and> distinct [''.'', ''a'', ''a/b'', ''z'']"
    by blast
  with wf fl show ?thesis by blast
qed

section \<open>Properties of filepath.Walk\<close>

text \<open>
  The callback returns in one of five ways. The induction over the walk is done once,
  for a callback that keeps an invariant \<open>G\<close> of the state until it returns a fatal
  error (one that is neither \<^verbatim>\<open>nil\<close> nor \<^verbatim>\<open>SkipDir\<close>), establishes \<open>F\<close> then,
  and is only invoked on paths satisfying \<open>R\<close>.
\<close>

lemma walkFn_cases:
  assumes "walkFn v req path info err st = (r, st')"
  obtains
    (Err) e where "err = Some e" "r = Some e" "st' = logged path err None (Some e) st"
  | (Skip) "err = None" "skipped (skippedK8sCodegenPaths v) (filepath_Dir path)"
      "r = Some SkipDir" "st' = logged path None None (Some SkipDir) st"
  | (NotGo) "err = None" "\<not> skipped (skippedK8sCodegenPaths v) (filepath_Dir path)"
      "\<not> HasSuffix path ''.go'' \<or> HasSuffix path ''_test.go''"
      "r = None" "st' = logged path None None None st"
  | (ReadErr) e where "err = None" "\<not> skipped (skippedK8sCodegenPaths v) (filepath_Dir path)"
      "HasSuffix path ''.go''" "\<not> HasSuffix path ''_test.go''"
      "ioutil_ReadFile info = Inl e" "r = Some e"
      "st' = logged path None (Some (Inl e)) (Some e) st"
  | (Read) b where "err = None" "\<not> skipped (skippedK8sCodegenPaths v) (filepath_Dir path)"
      "HasSuffix path ''.go''" "\<not> HasSuffix path ''_test.go''"
      "ioutil_ReadFile info = Inr b" "r = None"
      "st' = logged path None (Some (Inr b)) None
               (st\<lparr>tagsValuesPkgs := merge_tags (filepath_Dir path) (extractTags b req) (tagsValuesPkgs st)\<rparr>)"
  using assms unfolding walkFn_def
  by (auto simp: Let_def split: option.splits if_splits sum.splits)

lemma lstat_PathError: "lstat info = None \<or> (\<exists>e. lstat info = Some (PathError e))"
  by (cases info) auto

lemma walk_general:
  "(\<And>path info err st r st'. G st \<Longrightarrow> R path \<Longrightarrow> err = None \<or> (\<exists>e. err = Some (PathError e)) \<Longrightarrow>
        fn path info err st = (r, st') \<Longrightarrow>
        (if fatal r then F r st' else G st') \<and>
        (r = None \<longrightarrow> (\<forall>name. N name \<longrightarrow> R (filepath_Join path name)))) \<Longrightarrow>
     G st \<Longrightarrow> R path \<Longrightarrow> names_ok N info \<Longrightarrow> walk path info fn st = (r, st') \<Longrightarrow>
     (if fatal r then F r st' else G st')"
  "(\<And>path info err st r st'. G st \<Longrightarrow> R path \<Longrightarrow> err = None \<or> (\<exists>e. err = Some (PathError e)) \<Longrightarrow>
        fn path info err st = (r, st') \<Longrightarrow>
        (if fatal r then F r st' else G st') \<and>
        (r = None \<longrightarrow> (\<forall>name. N name \<longrightarrow> R (filepath_Join path name)))) \<Longrightarrow>
     G st \<Longrightarrow> (\<forall>name. N name \<longrightarrow> R (filepath_Join path name)) \<Longrightarrow> names_ok_list N names \<Longrightarrow>
     walk_names path names fn st = (r, st') \<Longrightarrow>
     (if fatal r then F r st' else G st')"
proof (induction path info fn st and path names fn st arbitrary: r st' and r st'
    rule: walk_walk_names.induct)
  case (1 path names g st)
  note step = "1.prems"(1)
  obtain err1 st1 where f: "g path (Dir names) None st = (err1, st1)"
    by (cases "g path (Dir names) None st")
  from step[OF "1.prems"(2,3) _ f]
  have Q1: "if fatal err1 then F err1 st1 else G st1"
    and R1: "err1 = None \<longrightarrow> (\<forall>name. N name \<longrightarrow> R (filepath_Join path name))"
    by simp_all
  show ?case
  proof (cases "err1 = None")
    case True
    with f "1.prems"(5) have w: "walk_names path names g st1 = (r, st')" by simp
    from True Q1 have G1: "G st1" by (simp add: fatal_def)
    from True R1 have R': "\<forall>name. N name \<longrightarrow> R (filepath_Join path name)" by simp
    from "1.prems"(4) have ok: "names_ok_list N names" by simp
    from True have nn: "\<not> err1 \<noteq> None" by simp
    from "1.IH"[OF refl f[symmetric] nn step G1 R' ok w] show ?thesis .
  next
    case False
    with f "1.prems"(5) have "r = err1" "st' = st1" by auto
    with Q1 show ?thesis by simp
  qed
next
  case (2 path e g st)
  from "2.prems"(1)[OF "2.prems"(2,3), of "Some (PathError e)" "UnreadableDir e" r st'] "2.prems"(5)
  show ?case by simp
next
  case (3 path v g st)
  from "3.prems"(1)[OF "3.prems"(2,3), of None "File v" r st'] "3.prems"(5)
  show ?case by simp
next
  case (4 path v g st)
  from "4.prems"(1)[OF "4.prems"(2,3), of None "NoStat v" r st'] "4.prems"(5)
  show ?case by simp
next
  case (5 path g st)
  then show ?case by (simp add: fatal_def)
next
  case (6 path name fileInfo names g st)
  note step = "6.prems"(1)
  let ?f = "filepath_Join path name"
  from "6.prems"(4) have N: "N name" and okc: "names_ok N fileInfo" and okn: "names_ok_list N names"
    by simp_all
  from "6.prems"(3) N have Rf: "R ?f" by simp
  show ?case
  proof (cases "lstat fileInfo = None")
    case False
    obtain err st1 where f: "g ?f fileInfo (lstat fileInfo) st = (err, st1)"
      by (cases "g ?f fileInfo (lstat fileInfo) st")
    from step[OF "6.prems"(2) Rf lstat_PathError f]
    have Q1: "if fatal err then F err st1 else G st1" by simp
    show ?thesis
    proof (cases "err \<noteq> None \<and> err \<noteq> Some SkipDir")
      case True
      with f False "6.prems"(5) have "r = err" "st' = st1" by (auto simp: Let_def)
      with Q1 show ?thesis by simp
    next
      case stop: False
      with f False "6.prems"(5) have w: "walk_names path names g st1 = (r, st')"
        by (auto simp: Let_def)
      from stop Q1 have G1: "G st1" by (auto simp: fatal_def)
      from "6.IH"(1)[OF refl False f[symmetric] refl stop step G1 "6.prems"(3) okn w] show ?thesis .
    qed
  next
    case True
    obtain err st1 where f: "walk ?f fileInfo g st = (err, st1)"
      by (cases "walk ?f fileInfo g st")
    have nn: "\<not> lstat fileInfo \<noteq> None" using True by simp
    from "6.IH"(2)[OF refl nn step "6.prems"(2) Rf okc f]
    have Q1: "if fatal err then F err st1 else G st1" .
    show ?thesis
    proof (cases "err \<noteq> None \<and> (\<not> IsDir fileInfo \<or> err \<noteq> Some SkipDir)")
      case stop: True
      with f True "6.prems"(5) have "r = err" "st' = st1" by (auto simp: Let_def)
      with Q1 show ?thesis by simp
    next
      case False
      with f True "6.prems"(5) have w: "walk_names path names g st1 = (r, st')"
        by (auto simp: Let_def)
      from False Q1 have G1: "G st1" by (auto simp: fatal_def)
      from "6.IH"(3)[OF refl nn f[symmetric] refl False step G1 "6.prems"(3) okn w] show ?thesis .
    qed
  qed
qed

lemma filepath_Walk_general:
  assumes step: "\<And>path info err st r st'. G st \<Longrightarrow> R path \<Longrightarrow>
        err = None \<or> (\<exists>e. err = Some (PathError e)) \<Longrightarrow>
        fn path info err st = (r, st') \<Longrightarrow>
        (if fatal r then F r st' else G st') \<and>
        (r = None \<longrightarrow> (\<forall>name. N name \<longrightarrow> R (filepath_Join path name)))"
    and G: "G st" and R: "R root" and ok: "names_ok N info"
    and w: "filepath_Walk root info fn st = (r, st')"
  shows "(if r \<noteq> None then F r st' else G st') \<and> r \<noteq> Some SkipDir"
proof -
  obtain err st1 where f: "(if lstat info \<noteq> None then fn root info (lstat info) st
                        else walk root info fn st) = (err, st1)"
    by (cases "if lstat info \<noteq> None then fn root info (lstat info) st else walk root info fn st")
  have Q1: "if fatal err then F err st1 else G st1"
  proof (cases "lstat info = None")
    case True
    with f have "walk root info fn st = (err, st1)" by simp
    from walk_general(1)[of G R fn F N, OF step G R ok this] show ?thesis by simp
  next
    case False
    with f have "fn root info (lstat info) st = (err, st1)" by simp
    from step[OF G R lstat_PathError this] show ?thesis by simp
  qed
  from w f have r: "r = (if err = Some SkipDir then None else err)" and st': "st' = st1"
    unfolding filepath_Walk_def by (auto simp: Let_def split: if_splits)
  from r st' Q1 show ?thesis
    by (auto simp: fatal_def split: if_splits)
qed

lemma names_ok_True: "names_ok (\<lambda>_. True) info" "names_ok_list (\<lambda>_. True) names"
  by (induction "\<lambda>_::string. True" info and "\<lambda>_::string. True" names rule: names_ok_names_ok_list.induct) simp_all

section \<open>Properties of findGeneratorTags\<close>

subsection \<open>Merging the tags of a file\<close>

lemma wf_index_alt: "wf_index m = (distinct (map fst m) \<and> (\<forall>(tag, sub) \<in> set m. wf_sub sub))"
  by (simp add: wf_index_def wf_sub_def)

lemma map_at_update: "map_at (AList.update k v al) k' = (if k' = k then v else map_at al k')"
  by (simp add: map_at_def update_conv')

lemma map_at_mem: "map_at m k = [] \<or> (k, map_at m k) \<in> set m"
  by (cases "map_of m k") (auto simp: map_at_def dest: map_of_SomeD)

lemma set_keys_update: "set (map fst (AList.update k v al)) = insert k (set (map fst al))"
  by (induction al) auto

lemma wf_sub_map_at: "wf_sub sub \<Longrightarrow> distinct (map fst (map_at sub v))"
  using map_at_mem[of sub v] by (auto simp: wf_sub_def)

lemma wf_sub_update:
  "wf_sub sub \<Longrightarrow> distinct (map fst subSet) \<Longrightarrow> wf_sub (AList.update v subSet sub)"
  unfolding wf_sub_def by (auto simp: distinct_update dest!: update_key_cases)

lemma wf_sub_add_values: "wf_sub sub \<Longrightarrow> wf_sub (add_values pkg vs sub)"
proof (induction vs arbitrary: sub)
  case Nil
  then show ?case by simp
next
  case (Cons v vs)
  let ?sub1 = "if map_of sub v = None then AList.update v [] sub else sub"
  from Cons.prems have w1: "wf_sub ?sub1" by (simp add: wf_sub_update)
  then have "distinct (map fst (AList.update pkg True (map_at ?sub1 v)))"
    by (intro distinct_update wf_sub_map_at)
  with w1 have "wf_sub (AList.update v (AList.update pkg True (map_at ?sub1 v)) ?sub1)"
    by (rule wf_sub_update)
  from Cons.IH[OF this] show ?case by (simp add: Let_def)
qed

lemma map_at_add_values:
  "set (map fst (map_at (add_values pkg vs sub) v)) =
     set (map fst (map_at sub v)) \<union> (if v \<in> set vs then {pkg} else {})"
proof (induction vs arbitrary: sub)
  case Nil
  then show ?case by simp
next
  case (Cons v0 vs)
  let ?sub1 = "if map_of sub v0 = None then AList.update v0 [] sub else sub"
  let ?sub2 = "AList.update v0 (AList.update pkg True (map_at ?sub1 v0)) ?sub1"
  have s1: "\<And>x. map_at ?sub1 x = map_at sub x"
    by (auto simp: map_at_update) (simp add: map_at_def)
  have "set (map fst (map_at ?sub2 v)) =
          set (map fst (map_at sub v)) \<union> (if v = v0 then {pkg} else {})"
    by (simp add: map_at_update s1 set_keys_update del: set_map)
  with Cons.IH[of ?sub2] show ?case
    by (auto simp: Let_def simp del: set_map)
qed

lemma wf_index_update:
  "wf_index m \<Longrightarrow> wf_sub sub \<Longrightarrow> wf_index (AList.update tag sub m)"
  unfolding wf_index_alt by (auto simp: distinct_update dest!: update_key_cases)

lemma wf_index_map_at: "wf_index m \<Longrightarrow> wf_sub (map_at m tag)"
  using map_at_mem[of m tag] by (auto simp: wf_index_alt) (simp add: wf_sub_def)

lemma wf_index_merge_tags: "wf_index m \<Longrightarrow> wf_index (merge_tags pkg tags m)"
proof (induction tags arbitrary: m)
  case Nil
  then show ?case by simp
next
  case (Cons p tags)
  obtain tag vals where p: "p = (tag, vals)" by (cases p)
  let ?m1 = "if map_of m tag = None then AList.update tag [] m else m"
  from Cons.prems have w1: "wf_index ?m1" by (simp add: wf_index_update wf_sub_def)
  then have "wf_sub (add_values pkg vals (map_at ?m1 tag))"
    by (intro wf_sub_add_values wf_index_map_at)
  with w1 have "wf_index (AList.update tag (add_values pkg vals (map_at ?m1 tag)) ?m1)"
    by (rule wf_index_update)
  from Cons.IH[OF this] show ?case unfolding p by (simp add: Let_def)
qed

lemma pkgs_of_merge_tags:
  "set (pkgs_of (merge_tags pkg tags m) tag v) =
     set (pkgs_of m tag v) \<union> (if \<exists>vals. (tag, vals) \<in> set tags \<and> v \<in> set vals then {pkg} else {})"
proof (induction tags arbitrary: m)
  case Nil
  then show ?case by simp
next
  case (Cons p tags)
  obtain tag0 vals0 where p: "p = (tag0, vals0)" by (cases p)
  let ?m1 = "if map_of m tag0 = None then AList.update tag0 [] m else m"
  let ?m2 = "AList.update tag0 (add_values pkg vals0 (map_at ?m1 tag0)) ?m1"
  have s1: "\<And>x. map_at ?m1 x = map_at m x"
    by (auto simp: map_at_update) (simp add: map_at_def)
  have "set (pkgs_of ?m2 tag v) =
          set (pkgs_of m tag v) \<union> (if tag = tag0 \<and> v \<in> set vals0 then {pkg} else {})"
    unfolding pkgs_of_def
    by (simp add: map_at_update s1 map_at_add_values del: set_map)
  with Cons.IH[of ?m2] show ?case
    unfolding p by (auto simp: Let_def simp del: set_map)
qed

subsection \<open>Invariants of the walk\<close>


lemma findGeneratorTags_walk_invariant:
  assumes step: "\<And>path info err st r st'. P st \<Longrightarrow> walkFn v req path info err st = (r, st') \<Longrightarrow> P st'"
    and init: "P \<lparr>tagsValuesPkgs = [], trace = []\<rparr>"
    and run: "findGeneratorTags_walk v root req fs = (r, st)"
  shows "P st"
proof -
  have "(if r \<noteq> None then P st else P st) \<and> r \<noteq> Some SkipDir"
  proof (rule filepath_Walk_general[where G = P and F = "\<lambda>_. P" and R = "\<lambda>_. True" and N = "\<lambda>_. True"
        and fn = "walkFn v req"])
    show "P \<lparr>tagsValuesPkgs = [], trace = []\<rparr>" by (rule init)
    show "names_ok (\<lambda>_. True) fs" by (rule names_ok_True)
    show "filepath_Walk root fs (walkFn v req) \<lparr>tagsValuesPkgs = [], trace = []\<rparr> = (r, st)"
      using run by (simp add: findGeneratorTags_walk_def)
  qed (use step in auto)
  then show ?thesis by (simp split: if_splits)
qed

lemma trace_logged: "trace (logged path err rd ret st) =
    trace st @ [\<lparr>call_path = path, call_err = err, call_read = rd, call_ret = ret\<rparr>]"
  by (simp add: logged_def)

lemma tagsValuesPkgs_logged: "tagsValuesPkgs (logged path err rd ret st) = tagsValuesPkgs st"
  by (simp add: logged_def)

lemma walk_reads_checked:
  assumes "findGeneratorTags_walk v root req fs = (r, st)"
  shows "(\<forall>c \<in> set (trace st). read_ok v c) \<and> tagsValuesPkgs st = foldl (contribute req) [] (trace st)"
proof (rule findGeneratorTags_walk_invariant[where P = "\<lambda>st. (\<forall>c \<in> set (trace st). read_ok v c) \<and>
        tagsValuesPkgs st = foldl (contribute req) [] (trace st)", OF _ _ assms])
  show "(\<forall>c \<in> set (trace \<lparr>tagsValuesPkgs = [], trace = []\<rparr>). read_ok v c) \<and>
        tagsValuesPkgs \<lparr>tagsValuesPkgs = [], trace = []\<rparr> = foldl (contribute req) [] (trace \<lparr>tagsValuesPkgs = [], trace = []\<rparr>)"
    by simp
next
  fix path info err st r st'
  assume P: "(\<forall>c \<in> set (trace st). read_ok v c) \<and> tagsValuesPkgs st = foldl (contribute req) [] (trace st)"
    and f: "walkFn v req path info err st = (r, st')"
  from f show "(\<forall>c \<in> set (trace st'). read_ok v c) \<and> tagsValuesPkgs st' = foldl (contribute req) [] (trace st')"
    using P
    by (cases rule: walkFn_cases)
       (auto simp: trace_logged tagsValuesPkgs_logged read_ok_def contribute_def)
qed

lemma example_run:
  "findGeneratorTags_walk example_vendorer ''.'' [(''openapi-gen'', True)] example_tree =
     (None, example_state)"
  by code_simp


subsection \<open>Which files are read\<close>

lemma HasSuffix_iff: "HasSuffix s suf \<longleftrightarrow> (\<exists>pre. s = pre @ suf)"
proof
  assume "HasSuffix s suf"
  then have "s = take (length s - length suf) s @ suf"
    by (metis HasSuffix_def append_take_drop_id)
  then show "\<exists>pre. s = pre @ suf" by blast
next
  assume "\<exists>pre. s = pre @ suf"
  then show "HasSuffix s suf" by (auto simp: HasSuffix_def)
qed

lemma HasSuffix_Join:
  assumes "CHR ''/'' \<notin> set suf"
  shows "HasSuffix (filepath_Join dir name) suf \<longleftrightarrow> HasSuffix name suf"
proof (cases "dir = ''.''")
  case True
  then show ?thesis by (simp add: filepath_Join_def)
next
  case False
  have "HasSuffix ((dir @ ''/'') @ name) suf \<longleftrightarrow> HasSuffix name suf"
  proof
    assume "HasSuffix ((dir @ ''/'') @ name) suf"
    then obtain pre where "(dir @ ''/'') @ name = pre @ suf"
      unfolding HasSuffix_iff by blast
    then obtain us where "(dir @ ''/'' = pre @ us \<and> us @ name = suf) \<or> ((dir @ ''/'') @ us = pre \<and> name = us @ suf)"
      unfolding append_eq_append_conv2 by blast
    then show "HasSuffix name suf"
    proof
      assume a: "dir @ ''/'' = pre @ us \<and> us @ name = suf"
      show ?thesis
      proof (cases "us = []")
        case True
        with a show ?thesis by (auto simp: HasSuffix_iff)
      next
        case False
        with a have "last us = CHR ''/''"
          by (metis last_appendR last_snoc)
        with False have "CHR ''/'' \<in> set us" by (metis last_in_set)
        with a assms show ?thesis by auto
      qed
    next
      assume "(dir @ ''/'') @ us = pre \<and> name = us @ suf"
      then show ?thesis by (auto simp: HasSuffix_iff)
    qed
  next
    assume "HasSuffix name suf"
    then show "HasSuffix ((dir @ ''/'') @ name) suf"
      unfolding HasSuffix_iff by (metis append.assoc)
  qed
  with False show ?thesis by (simp add: filepath_Join_def)
qed

lemma contribute_unread: "call_read c = None \<Longrightarrow> contribute requestedTags m c = m"
  by (simp add: contribute_def)

text \<open>
  C7: whenever the callback reads a file, its path ends in \<^verbatim>\<open>.go\<close> and not in
  \<^verbatim>\<open>_test.go\<close>; hence a visited entry whose name does not end in \<^verbatim>\<open>.go\<close>, or
  ends in \<^verbatim>\<open>_test.go\<close>, is never read. The map at the end of the walk is built from
  the files that were read alone: an invocation that reads nothing contributes
  nothing.
\<close>

theorem only_non_test_go_files_read:
  assumes "findGeneratorTags_walk v root requestedTags fs = (r, st)"
  shows "(\<forall>c \<in> set (trace st). call_read c \<noteq> None \<longrightarrow>
            HasSuffix (call_path c) ''.go'' \<and> \<not> HasSuffix (call_path c) ''_test.go'')
       \<and> (\<forall>c \<in> set (trace st). \<forall>dir name.
            call_path c = filepath_Join dir name \<and>
            (\<not> HasSuffix name ''.go'' \<or> HasSuffix name ''_test.go'') \<longrightarrow> call_read c = None)
       \<and> tagsValuesPkgs st = foldl (contribute requestedTags) [] (trace st)
       \<and> (\<forall>c m. call_read c = None \<longrightarrow> contribute requestedTags m c = m)"
proof -
  from walk_reads_checked[OF assms]
  have ok: "\<forall>c \<in> set (trace st). read_ok v c"
    and idx: "tagsValuesPkgs st = foldl (contribute requestedTags) [] (trace st)"
    by simp_all
  have 1: "\<forall>c \<in> set (trace st). call_read c \<noteq> None \<longrightarrow>
            HasSuffix (call_path c) ''.go'' \<and> \<not> HasSuffix (call_path c) ''_test.go''"
    using ok by (simp add: read_ok_def)
  have 2: "\<forall>c \<in> set (trace st). \<forall>dir name.
            call_path c = filepath_Join dir name \<and>
            (\<not> HasSuffix name ''.go'' \<or> HasSuffix name ''_test.go'') \<longrightarrow> call_read c = None"
  proof (intro ballI allI impI)
    fix c dir name
    assume c: "c \<in> set (trace st)"
      and a: "call_path c = filepath_Join dir name \<and>
            (\<not> HasSuffix name ''.go'' \<or> HasSuffix name ''_test.go'')"
    have "HasSuffix (call_path c) ''.go'' = HasSuffix name ''.go''"
      "HasSuffix (call_path c) ''_test.go'' = HasSuffix name ''_test.go''"
      using a by (simp_all add: HasSuffix_Join)
    with a 1 c show "call_read c = None" by blast
  qed
  from 1 2 idx contribute_unread show ?thesis by blast
qed

theorem only_non_test_go_files_read_witness:
  "map call_path (filter (\<lambda>c. call_read c \<noteq> None) (trace example_state)) = [''api/doc.go'', ''api/types.go'']
   \<and> HasSuffix ''api/doc.go'' ''.go'' \<and> \<not> HasSuffix ''api/doc.go'' ''_test.go''
   \<and> HasSuffix ''types_test.go'' ''_test.go''"
proof -
  let ?c = "\<lparr>call_path = ''api/doc.go'', call_err = None,
            call_read = Some (Inr ''// +k8s:openapi-gen=true\<newline>''), call_ret = None\<rparr>"
  have c: "?c \<in> set (trace example_state)" by (simp add: example_state_def)
  note th = only_non_test_go_files_read[OF example_run]
  from th have "\<forall>c \<in> set (trace example_state). call_read c \<noteq> None \<longrightarrow>
            HasSuffix (call_path c) ''.go'' \<and> \<not> HasSuffix (call_path c) ''_test.go''"
    by (rule conjunct1)
  from this[rule_format, OF c] have "HasSuffix ''api/doc.go'' ''.go'' \<and> \<not> HasSuffix ''api/doc.go'' ''_test.go''"
    by simp
  moreover have "map call_path (filter (\<lambda>c. call_read c \<noteq> None) (trace example_state)) = [''api/doc.go'', ''api/types.go'']"
    by (simp add: example_state_def)
  moreover have "HasSuffix ''types_test.go'' ''_test.go''" by (simp add: HasSuffix_def)
  ultimately show ?thesis by (intro conjI) simp_all
qed

subsection \<open>Packages form a set\<close>

lemma count_list_distinct: "distinct xs \<Longrightarrow> x \<in> set xs \<Longrightarrow> count_list xs x = 1"
  by (induction xs) auto

lemma wf_index_pkgs_of: "wf_index m \<Longrightarrow> distinct (pkgs_of m tag val)"
  unfolding pkgs_of_def by (intro wf_sub_map_at wf_index_map_at)

lemma recorded_merge_tags:
  "recorded req m c \<Longrightarrow> recorded req (merge_tags pkg tags m) c"
  unfolding recorded_def pkgs_of_merge_tags by blast

lemma walk_records:
  assumes "findGeneratorTags_walk v root req fs = (r, st)"
  shows "wf_index (tagsValuesPkgs st) \<and> (\<forall>c \<in> set (trace st). recorded req (tagsValuesPkgs st) c)"
proof (rule findGeneratorTags_walk_invariant[where P = "\<lambda>st. wf_index (tagsValuesPkgs st) \<and>
        (\<forall>c \<in> set (trace st). recorded req (tagsValuesPkgs st) c)", OF _ _ assms])
  show "wf_index (tagsValuesPkgs \<lparr>tagsValuesPkgs = [], trace = []\<rparr>) \<and>
        (\<forall>c \<in> set (trace \<lparr>tagsValuesPkgs = [], trace = []\<rparr>).
            recorded req (tagsValuesPkgs \<lparr>tagsValuesPkgs = [], trace = []\<rparr>) c)"
    by (simp add: wf_index_def)
next
  fix path info err st r st'
  assume P: "wf_index (tagsValuesPkgs st) \<and> (\<forall>c \<in> set (trace st). recorded req (tagsValuesPkgs st) c)"
    and f: "walkFn v req path info err st = (r, st')"
  from f show "wf_index (tagsValuesPkgs st') \<and> (\<forall>c \<in> set (trace st'). recorded req (tagsValuesPkgs st') c)"
  proof (cases rule: walkFn_cases)
    case (Read b)
    let ?pkg = "filepath_Dir path"
    let ?m' = "merge_tags ?pkg (extractTags b req) (tagsValuesPkgs st)"
    let ?c = "\<lparr>call_path = path, call_err = None, call_read = Some (Inr b), call_ret = None\<rparr>"
    have m': "tagsValuesPkgs st' = ?m'" and tr: "trace st' = trace st @ [?c]"
      using Read by (simp_all add: trace_logged tagsValuesPkgs_logged)
    have "recorded req ?m' ?c"
      unfolding recorded_def pkgs_of_merge_tags by auto
    moreover have "\<forall>c \<in> set (trace st). recorded req ?m' c"
      using P recorded_merge_tags by blast
    moreover have "wf_index ?m'" using P by (simp add: wf_index_merge_tags)
    ultimately show ?thesis unfolding m' tr by simp
  qed (use P in \<open>auto simp: trace_logged tagsValuesPkgs_logged recorded_def\<close>)
qed

text \<open>
  C5: at the end of every walk the keys are distinct at each level of the map, so
  the packages of a pair of a tag and a value hold no duplicate; and for every file that
  was read and every pair of a tag and a value it contributes, the directory of the file
  occurs exactly once among the packages of the pair, however many files of the directory
  contribute the pair.
\<close>

theorem packages_form_a_set:
  assumes "findGeneratorTags_walk v root requestedTags fs = (r, st)"
  shows "wf_index (tagsValuesPkgs st)
       \<and> (\<forall>tag val. distinct (pkgs_of (tagsValuesPkgs st) tag val))
       \<and> (\<forall>c \<in> set (trace st). \<forall>b tag vals val.
            call_read c = Some (Inr b) \<and> (tag, vals) \<in> set (extractTags b requestedTags) \<and>
            val \<in> set vals \<longrightarrow>
            count_list (pkgs_of (tagsValuesPkgs st) tag val) (filepath_Dir (call_path c)) = 1)"
proof -
  from walk_records[OF assms]
  have wf: "wf_index (tagsValuesPkgs st)"
    and rec: "\<forall>c \<in> set (trace st). recorded requestedTags (tagsValuesPkgs st) c"
    by simp_all
  have d: "\<And>tag val. distinct (pkgs_of (tagsValuesPkgs st) tag val)"
    using wf by (rule wf_index_pkgs_of)
  have "\<forall>c \<in> set (trace st). \<forall>b tag vals val.
            call_read c = Some (Inr b) \<and> (tag, vals) \<in> set (extractTags b requestedTags) \<and>
            val \<in> set vals \<longrightarrow>
            count_list (pkgs_of (tagsValuesPkgs st) tag val) (filepath_Dir (call_path c)) = 1"
  proof (intro ballI allI impI)
    fix c b tag vals val
    assume "c \<in> set (trace st)"
      and "call_read c = Some (Inr b) \<and> (tag, vals) \<in> set (extractTags b requestedTags) \<and> val \<in> set vals"
    with rec have "filepath_Dir (call_path c) \<in> set (pkgs_of (tagsValuesPkgs st) tag val)"
      unfolding recorded_def by blast
    with d show "count_list (pkgs_of (tagsValuesPkgs st) tag val) (filepath_Dir (call_path c)) = 1"
      by (rule count_list_distinct)
  qed
  with wf d show ?thesis by blast
qed

theorem packages_form_a_set_witness:
  "count_list (pkgs_of (tagsValuesPkgs example_state) ''openapi-gen'' ''true'') ''api'' = 1
   \<and> length (filter (\<lambda>c. call_read c \<noteq> None \<and> filepath_Dir (call_path c) = ''api'') (trace example_state)) = 2"
proof -
  let ?c = "\<lparr>call_path = ''api/types.go'', call_err = None,
            call_read = Some (Inr ''// +k8s:openapi-gen=true\<newline>''), call_ret = None\<rparr>"
  have c: "?c \<in> set (trace example_state)" by (simp add: example_state_def)
  have e: "extractTags ''// +k8s:openapi-gen=true\<newline>'' [(''openapi-gen'', True)] = [(''openapi-gen'', [''true''])]"
    by code_simp
  have d: "filepath_Dir ''api/types.go'' = ''api''" "filepath_Dir ''api/doc.go'' = ''api''"
    by code_simp+
  have hyp: "call_read ?c = Some (Inr ''// +k8s:openapi-gen=true\<newline>'') \<and>
      (''openapi-gen'', [''true'']) \<in> set (extractTags ''// +k8s:openapi-gen=true\<newline>'' [(''openapi-gen'', True)]) \<and>
      ''true'' \<in> set [''true'']"
    unfolding e by simp
  note th = packages_form_a_set[OF example_run]
  from th have "\<forall>c \<in> set (trace example_state). \<forall>b tag vals val.
            call_read c = Some (Inr b) \<and> (tag, vals) \<in> set (extractTags b [(''openapi-gen'', True)]) \<and>
            val \<in> set vals \<longrightarrow>
            count_list (pkgs_of (tagsValuesPkgs example_state) tag val) (filepath_Dir (call_path c)) = 1"
    by (elim conjE)
  from this[rule_format, OF c hyp]
  have "count_list (pkgs_of (tagsValuesPkgs example_state) ''openapi-gen'' ''true'') ''api'' = 1"
    by (simp add: d)
  moreover have "length (filter (\<lambda>c. call_read c \<noteq> None \<and> filepath_Dir (call_path c) = ''api'') (trace example_state)) = 2"
    by (simp add: example_state_def d)
  ultimately show ?thesis by (intro conjI)
qed

subsection \<open>Errors abort the walk\<close>




subsection \<open>Skipped directories\<close>


















section \<open>Properties of walkGenerated\<close>

lemma walkGenerated_stat:
  assumes bzl: "K8sCodegenBzlFile (cfg v) \<noteq> []"
    and tags: "findGeneratorTags v ''.'' (requested_set (K8sCodegenTags (cfg v)) []) (tree w) = (Some tvp, None)"
    and bp: "boilerplate_of v w = Inr boilerplate"
  shows "\<exists>eff. (\<forall>x \<in> set eff. \<not> is_write x) \<and>
     walkGenerated h v w =
       (let f = walkGenerated_File h v tvp; err = Stat w (Path f)
        in if err \<noteq> None \<and> \<not> IsNotExist err then ((False, err), eff)
           else (writeFile h (Path f) f boilerplate (\<not> IsNotExist err) (dryRun v),
                 eff @ [WriteFileCalled (Path f) f boilerplate (\<not> IsNotExist err) (dryRun v)]))"
proof -
  obtain walkErr st where w: "findGeneratorTags_walk v ''.'' (requested_set (K8sCodegenTags (cfg v)) []) (tree w) = (walkErr, st)"
    by (cases "findGeneratorTags_walk v ''.'' (requested_set (K8sCodegenTags (cfg v)) []) (tree w)")
  show ?thesis
  proof (cases "K8sCodegenBoilerplateFile (cfg v) = []")
    case True
    with bp have b: "boilerplate = None" by (simp add: boilerplate_of_def)
    let ?eff = "[Walked ''.'' (trace st), StatCalled (Path (walkGenerated_File h v tvp))] :: 'a effect list"
    have "\<forall>x \<in> set ?eff. \<not> is_write x" by simp
    moreover have "walkGenerated h v w =
       (let f = walkGenerated_File h v tvp; err = Stat w (Path f)
        in if err \<noteq> None \<and> \<not> IsNotExist err then ((False, err), ?eff)
           else (writeFile h (Path f) f boilerplate (\<not> IsNotExist err) (dryRun v),
                 ?eff @ [WriteFileCalled (Path f) f boilerplate (\<not> IsNotExist err) (dryRun v)]))"
      using bzl tags w True b by (simp add: walkGenerated_def Let_def)
    ultimately show ?thesis by blast
  next
    case False
    with bp obtain b where rd: "ReadFile w (K8sCodegenBoilerplateFile (cfg v)) = Inr b"
      and b: "boilerplate = Some b"
      by (auto simp: boilerplate_of_def split: sum.splits)
    let ?eff = "[Walked ''.'' (trace st), ReadFileCalled (K8sCodegenBoilerplateFile (cfg v)),
                 StatCalled (Path (walkGenerated_File h v tvp))] :: 'a effect list"
    have "\<forall>x \<in> set ?eff. \<not> is_write x" by simp
    moreover have "walkGenerated h v w =
       (let f = walkGenerated_File h v tvp; err = Stat w (Path f)
        in if err \<noteq> None \<and> \<not> IsNotExist err then ((False, err), ?eff)
           else (writeFile h (Path f) f boilerplate (\<not> IsNotExist err) (dryRun v),
                 ?eff @ [WriteFileCalled (Path f) f boilerplate (\<not> IsNotExist err) (dryRun v)]))"
      using bzl tags w False b rd by (simp add: walkGenerated_def Let_def)
    ultimately show ?thesis by blast
  qed
qed

lemma example_tags:
  "findGeneratorTags example_vendorer ''.'' (requested_set (K8sCodegenTags (cfg example_vendorer)) [])
     (tree (example_os stat)) = (Some (tagsValuesPkgs example_state), None)"
proof -
  have "requested_set (K8sCodegenTags (cfg example_vendorer)) [] = [(''openapi-gen'', True)]"
    by (simp add: example_vendorer_def)
  with example_run show ?thesis
    by (simp add: findGeneratorTags_def example_os_def)
qed

text \<open>
  C8: when the walk and the reading of the boilerplate succeed, the result of
  \<^verbatim>\<open>os.Stat\<close> on the output path decides: "not found" is no error and
  \<^verbatim>\<open>writeFile\<close> is called with \<open>fileExists = False\<close>; no error calls it with
  \<open>fileExists = True\<close>; any other error is returned with \<open>False\<close> and nothing is
  written.
\<close>

theorem stat_not_found_is_not_an_error:
  assumes bzl: "K8sCodegenBzlFile (cfg v) \<noteq> []"
    and tags: "findGeneratorTags v ''.'' (requested_set (K8sCodegenTags (cfg v)) []) (tree w) = (Some tvp, None)"
    and bp: "boilerplate_of v w = Inr boilerplate"
    and f: "f = walkGenerated_File h v tvp"
  shows "(Stat w (Path f) = Some (PathError ENOENT) \<longrightarrow>
            fst (walkGenerated h v w) = writeFile h (Path f) f boilerplate False (dryRun v) \<and>
            last (snd (walkGenerated h v w)) = WriteFileCalled (Path f) f boilerplate False (dryRun v))
       \<and> (Stat w (Path f) = None \<longrightarrow>
            fst (walkGenerated h v w) = writeFile h (Path f) f boilerplate True (dryRun v) \<and>
            last (snd (walkGenerated h v w)) = WriteFileCalled (Path f) f boilerplate True (dryRun v))
       \<and> (\<forall>e. Stat w (Path f) = Some e \<and> e \<noteq> PathError ENOENT \<longrightarrow>
            fst (walkGenerated h v w) = (False, Some e) \<and>
            (\<forall>x \<in> set (snd (walkGenerated h v w)). \<not> is_write x))"
proof -
  from walkGenerated_stat[OF bzl tags bp, of h] obtain eff where
    nw: "\<forall>x \<in> set eff. \<not> is_write x"
    and wg: "walkGenerated h v w =
       (let err = Stat w (Path f)
        in if err \<noteq> None \<and> \<not> IsNotExist err then ((False, err), eff)
           else (writeFile h (Path f) f boilerplate (\<not> IsNotExist err) (dryRun v),
                 eff @ [WriteFileCalled (Path f) f boilerplate (\<not> IsNotExist err) (dryRun v)]))"
    unfolding f Let_def by blast
  show ?thesis
    unfolding wg using nw by (auto simp: Let_def IsNotExist_def)
qed

theorem stat_not_found_is_not_an_error_witness:
  "fst (walkGenerated example_helpers example_vendorer (example_os (Some (PathError ENOENT)))) = (True, None)
   \<and> fst (walkGenerated example_helpers example_vendorer (example_os None)) = (False, None)
   \<and> fst (walkGenerated example_helpers example_vendorer (example_os (Some (PathError EACCES))))
       = (False, Some (PathError EACCES))"
proof -
  have bzl: "K8sCodegenBzlFile (cfg example_vendorer) \<noteq> []" by (simp add: example_vendorer_def)
  have bp: "\<And>stat. boilerplate_of example_vendorer (example_os stat) = Inr None"
    by (simp add: boilerplate_of_def example_vendorer_def)
  note th = stat_not_found_is_not_an_error[OF bzl example_tags bp refl, of _ example_helpers]
  have st: "\<And>stat p. Stat (example_os stat) p = stat" by (simp add: example_os_def)
  have wf: "\<And>p f b x d. writeFile example_helpers p f b x d = (\<not> x, None)"
    by (simp add: example_helpers_def)
  from th[of "Some (PathError ENOENT)"]
  have 1: "fst (walkGenerated example_helpers example_vendorer (example_os (Some (PathError ENOENT)))) = (True, None)"
    unfolding st wf by simp
  from th[of None]
  have 2: "fst (walkGenerated example_helpers example_vendorer (example_os None)) = (False, None)"
    unfolding st wf by simp
  from th[of "Some (PathError EACCES)"]
  have 3: "fst (walkGenerated example_helpers example_vendorer (example_os (Some (PathError EACCES))))
       = (False, Some (PathError EACCES))"
    unfolding st wf by simp
  from 1 2 3 show ?thesis by (intro conjI)
qed

text \<open>
  C9: with an empty output path \<open>walkGenerated\<close> returns \<open>(False, nil)\<close> and has no
  effect: no walk, no read, no stat and no write.
\<close>

theorem empty_output_path_skips_generation:
  assumes "K8sCodegenBzlFile (cfg v) = []"
  shows "walkGenerated h v w = ((False, None), [])"
  using assms by (simp add: walkGenerated_def)

theorem empty_output_path_skips_generation_witness:
  "walkGenerated example_helpers
     (example_vendorer\<lparr>cfg := (cfg example_vendorer)\<lparr>K8sCodegenBzlFile := []\<rparr>\<rparr>)
     (example_os None) = ((False, None), [])"
proof -
  have "K8sCodegenBzlFile (cfg (example_vendorer\<lparr>cfg := (cfg example_vendorer)\<lparr>K8sCodegenBzlFile := []\<rparr>\<rparr>)) = []"
    by simp
  then show ?thesis by (rule empty_output_path_skips_generation)
qed

end
